theory Spec2Isabelle
  imports Main
begin

section \<open>Connect Loop: the data model\<close>

text \<open>
  The embedding follows \<^verbatim>\<open>src/connect_loop.py\<close>.  A vertex of the working copy
  (\<^verbatim>\<open>bmesh\<close>) is identified with its index, which is also its position in
  \<^verbatim>\<open>bm.verts\<close>.  Coordinates are taken on the integer grid and distances are compared
  exactly, through their squares; the rounding of single-precision coordinates is outside
  the model.  The mesh carries vertices and edges only: faces, and the selection
  flags of edges and faces, are left out, so that \<^verbatim>\<open>bmesh.ops.connect_vert_pair\<close>
  (which walks across faces) never yields an edge and every pair goes to
  \<^verbatim>\<open>bm.edges.new\<close>.  The select history holds vertices only, oldest first;
  \<^verbatim>\<open>bm.select_history.active\<close> is its last element.
\<close>

type_synonym coord = "int \<times> int \<times> int"

record bmvert =
  co :: coord
  select :: bool

record bmesh =
  verts :: "bmvert list"
  edges :: "(nat \<times> nat) list"
  select_history :: "nat list"

datatype error = ValueError | IndexError

definition active :: "bmesh \<Rightarrow> nat option" where
  "active bm = (if select_history bm = [] then None else Some (last (select_history bm)))"

text \<open>
  Two behaviours of the Python runtime and of \<^verbatim>\<open>mathutils.kdtree\<close> are not fixed by the
  source and are taken as parameters: the order in which a \<^verbatim>\<open>set\<close> is iterated, and
  the point the index returns among several nearest ones.
\<close>

type_synonym set_order = "nat list \<Rightarrow> nat list"
type_synonym tie_break = "coord \<Rightarrow> nat list \<Rightarrow> nat"

definition set_iter :: "set_order \<Rightarrow> nat list \<Rightarrow> nat list" where
  "set_iter ord xs = (let p = ord xs in if distinct p \<and> set p = set xs then p else xs)"

definition vselect :: "bmesh \<Rightarrow> nat \<Rightarrow> bool" where
  "vselect bm v = (v < length (verts bm) \<and> select (verts bm ! v))"

definition link_edges :: "bmesh \<Rightarrow> nat \<Rightarrow> (nat \<times> nat) list" where
  "link_edges bm v = filter (\<lambda>(a, b). a = v \<or> b = v) (edges bm)"

definition other_vert :: "nat \<Rightarrow> nat \<times> nat \<Rightarrow> nat" where
  "other_vert v e = (if fst e = v then snd e else fst e)"

section \<open>\<^verbatim>\<open>_linked_verts\<close>\<close>

text \<open>
  The recursion shares one mutable set \<^verbatim>\<open>verts\<close> among all calls; the model threads it
  through.  \<^verbatim>\<open>verts |= cls._linked_verts(..., verts=verts)\<close> unites the set with itself
  after the call has updated it, so the value after the statement is the value the call
  returns.
\<close>

fun linked_verts_rec :: "set_order \<Rightarrow> bmesh \<Rightarrow> nat \<Rightarrow> nat \<Rightarrow> nat set \<Rightarrow> nat set" where
  "linked_verts_rec ord bm 0 bm_vert vs = vs"
| "linked_verts_rec ord bm (Suc deep) bm_vert vs =
     (let selected_linked_verts =
            filter (\<lambda>u. vselect bm u \<and> u \<notin> vs)
              (remdups (map (other_vert bm_vert) (link_edges bm bm_vert)));
          vs1 = vs \<union> set selected_linked_verts
      in fold (\<lambda>vert acc. linked_verts_rec ord bm deep vert acc)
           (set_iter ord selected_linked_verts) vs1)"

definition linked_verts :: "set_order \<Rightarrow> bmesh \<Rightarrow> nat \<Rightarrow> nat \<Rightarrow> nat set" where
  "linked_verts ord bm bm_vert deep = linked_verts_rec ord bm deep bm_vert {bm_vert}"

definition linked_verts_recursive_deep :: nat where
  "linked_verts_recursive_deep = 10"

section \<open>\<^verbatim>\<open>_chunks\<close> and the size-2 filter\<close>

text \<open>
  \<^verbatim>\<open>range(0, len(lst), n - offset)\<close> raises \<^verbatim>\<open>ValueError\<close> for a zero step and is empty
  for a negative one; \<^verbatim>\<open>lst[i:i + n]\<close> is \<open>take n (drop i lst)\<close>.  Window and offset
  are natural numbers; the generator is modelled by the list of what it yields.
\<close>

function chunks_from :: "'a list \<Rightarrow> nat \<Rightarrow> nat \<Rightarrow> nat \<Rightarrow> 'a list list" where
  "chunks_from lst n step i =
     (if 0 < step \<and> i < length lst
      then take n (drop i lst) # chunks_from lst n step (i + step)
      else [])"
  by pat_completeness auto
termination
  by (relation "measure (\<lambda>(lst, n, step, i). length lst - i)") auto

definition chunks :: "'a list \<Rightarrow> nat \<Rightarrow> nat \<Rightarrow> error + 'a list list" where
  "chunks lst n offset =
     (if n = offset then Inl ValueError
      else if n < offset then Inr []
      else Inr (chunks_from lst n (n - offset) 0))"

definition edge_chunks :: "'a list \<Rightarrow> error + 'a list list" where
  "edge_chunks lp =
     (case chunks lp 2 1 of
        Inl e \<Rightarrow> Inl e
      | Inr cs \<Rightarrow> Inr (filter (\<lambda>chunk. length chunk = 2) cs))"

text \<open>The pairs of neighbours of a list, in order.\<close>

fun adj_pairs :: "'a list \<Rightarrow> 'a list list" where
  "adj_pairs (x # y # rest) = [x, y] # adj_pairs (y # rest)"
| "adj_pairs xs = []"

section \<open>Boundary pruning\<close>

text \<open>
  The generator over \<^verbatim>\<open>bm.verts\<close> is lazy: whether a vertex is a selected boundary vertex
  is decided when the iteration reaches it, on the selection as already changed.
\<close>

definition deselect :: "nat set \<Rightarrow> bmesh \<Rightarrow> bmesh" where
  "deselect S bm =
     bm\<lparr>verts := map (\<lambda>k. if k \<in> S then (verts bm ! k)\<lparr>select := False\<rparr> else verts bm ! k)
                     [0 ..< length (verts bm)]\<rparr>"

definition prune_step :: "set_order \<Rightarrow> nat \<Rightarrow> bmesh \<Rightarrow> bmesh" where
  "prune_step ord vertex bm =
     (if vselect bm vertex \<and> length (link_edges bm vertex) = 1
      then deselect (linked_verts ord bm vertex linked_verts_recursive_deep - {vertex}) bm
      else bm)"

definition prune_pass :: "set_order \<Rightarrow> bmesh \<Rightarrow> bmesh" where
  "prune_pass ord bm = fold (prune_step ord) [0 ..< length (verts bm)] bm"

text \<open>
  \<^verbatim>\<open>bm.select_flush_mode()\<close> belongs to the host's mesh library.  Besides recomputing the
  selection of edges and faces, which the model does not carry, it validates the select
  history: elements that are no longer selected are removed from it.
\<close>

definition select_flush_mode :: "bmesh \<Rightarrow> bmesh" where
  "select_flush_mode bm = bm\<lparr>select_history := filter (vselect bm) (select_history bm)\<rparr>"

definition prune :: "set_order \<Rightarrow> bmesh \<Rightarrow> bmesh" where
  "prune ord bm = select_flush_mode (prune_pass ord bm)"

section \<open>The spatial index\<close>

text \<open>
  \<^verbatim>\<open>kd.find(co, filter)\<close> returns the index of a nearest inserted point that passes the
  filter, or \<^verbatim>\<open>None\<close> when no point passes.  Among several nearest points the
  \<open>tie_break\<close> parameter decides; an answer outside the tied points is replaced by the
  first of them.
\<close>

type_synonym kdtree = "(coord \<times> nat) list"

definition dist_sq :: "coord \<Rightarrow> coord \<Rightarrow> int" where
  "dist_sq p q =
     (case p of (px, py, pz) \<Rightarrow> case q of (qx, qy, qz) \<Rightarrow>
        (px - qx) * (px - qx) + (py - qy) * (py - qy) + (pz - qz) * (pz - qz))"

definition kd_find :: "tie_break \<Rightarrow> kdtree \<Rightarrow> coord \<Rightarrow> (nat \<Rightarrow> bool) \<Rightarrow> nat option" where
  "kd_find tie kd q flt =
     (let cands = filter (\<lambda>(c, k). flt k) kd in
      if cands = [] then None
      else
        let dmin = min_list (map (\<lambda>(c, k). dist_sq q c) cands);
            tied = map snd (filter (\<lambda>(c, k). dist_sq q c = dmin) cands);
            r = tie q tied
        in Some (if r \<in> set tied then r else hd tied))"

definition selected_verts :: "bmesh \<Rightarrow> nat list" where
  "selected_verts bm = filter (\<lambda>k. select (verts bm ! k)) [0 ..< length (verts bm)]"

definition kd_build :: "bmesh \<Rightarrow> nat list \<Rightarrow> kdtree" where
  "kd_build bm vs = map (\<lambda>k. (co (verts bm ! k), k)) vs"

section \<open>The loop builder\<close>

record lb_state =
  loop :: "nat list"
  selected_vertices :: "nat list"
  current_vertex :: "nat option"
  iter :: nat

definition flt :: "lb_state \<Rightarrow> nat \<Rightarrow> bool" where
  "flt st index = (index \<notin> set (loop st) \<and> index \<in> set (selected_vertices st))"

text \<open>
  One pass through the body of the \<^verbatim>\<open>while\<close> loop, for the current vertex \<open>cur\<close>, up to
  and including \<^verbatim>\<open>_i += 1\<close>.  \<^verbatim>\<open>bm.verts[index] if index else None\<close> takes index \<open>0\<close>
  for false, as Python does.  The candidate list \<^verbatim>\<open>selected_vertices\<close> is only tested for
  membership and shortened, so \<^verbatim>\<open>list(set(selected_vertices) - linked_verts)\<close> is a filter.
\<close>

definition loop_body ::
  "tie_break \<Rightarrow> set_order \<Rightarrow> bmesh \<Rightarrow> kdtree \<Rightarrow> nat \<Rightarrow> lb_state \<Rightarrow> error + lb_state" where
  "loop_body tie ord bm kd cur st =
     (let linked = linked_verts ord bm cur linked_verts_recursive_deep;
          st1 = st\<lparr>selected_vertices := filter (\<lambda>v. v \<notin> linked) (selected_vertices st)\<rparr>
      in case kd_find tie kd (co (verts bm ! cur)) (flt st1) of
           None \<Rightarrow> Inr (st1\<lparr>current_vertex := None, iter := iter st1 + 1\<rparr>)
         | Some index \<Rightarrow>
             if index = 0 then Inr (st1\<lparr>current_vertex := None, iter := iter st1 + 1\<rparr>)
             else if length (verts bm) \<le> index then Inl IndexError
             else if index \<notin> set (selected_vertices st1) then Inl ValueError
             else Inr (st1\<lparr>loop := loop st1 @ [index],
                            selected_vertices := remove1 index (selected_vertices st1),
                            current_vertex := Some index,
                            iter := iter st1 + 1\<rparr>))"

function while_loop ::
  "tie_break \<Rightarrow> set_order \<Rightarrow> bmesh \<Rightarrow> kdtree \<Rightarrow> nat \<Rightarrow> lb_state \<Rightarrow> error + lb_state" where
  "while_loop tie ord bm kd l st =
     (case current_vertex st of
        None \<Rightarrow> Inr st
      | Some cur \<Rightarrow>
          (case loop_body tie ord bm kd cur st of
             Inl e \<Rightarrow> Inl e
           | Inr st' \<Rightarrow> if l < iter st' then Inr st' else while_loop tie ord bm kd l st'))"
  by pat_completeness auto
termination
proof (relation "measure (\<lambda>(tie, ord, bm, kd, l, st). Suc l - iter st)")
  show "wf (measure (\<lambda>(tie, ord, bm, kd, l, st). Suc l - iter st))" by simp
next
  fix tie :: tie_break and ord :: set_order and bm kd l and st st' :: lb_state and cur
  assume b: "loop_body tie ord bm kd cur st = Inr st'" and g: "\<not> l < iter st'"
  from b have "iter st' = iter st + 1"
    by (auto simp: loop_body_def Let_def split: option.splits if_splits)
  with g show "((tie, ord, bm, kd, l, st'), (tie, ord, bm, kd, l, st))
                 \<in> measure (\<lambda>(tie, ord, bm, kd, l, st). Suc l - iter st)"
    by simp
qed

declare chunks_from.simps [simp del]
declare while_loop.simps [simp del]

text \<open>
  The loop-building phase on the working copy \<open>bm\<close> (after pruning), from the list of
  selected vertices to the finished loop; \<^verbatim>\<open>list.remove\<close> raises \<^verbatim>\<open>ValueError\<close> when the
  active vertex is not in the list.
\<close>

definition loop_builder :: "tie_break \<Rightarrow> set_order \<Rightarrow> bmesh \<Rightarrow> nat \<Rightarrow> error + lb_state" where
  "loop_builder tie ord bm a =
     (let sv = selected_verts bm;
          kd = kd_build bm sv
      in if a \<notin> set sv then Inl ValueError
         else
           let sv1 = remove1 a sv
           in while_loop tie ord bm kd (length sv1)
                \<lparr>loop = [a], selected_vertices = sv1, current_vertex = Some a, iter = 0\<rparr>)"

section \<open>Edge creation and the entry point\<close>

text \<open>
  On a mesh without faces \<^verbatim>\<open>bmesh.ops.connect_vert_pair\<close> creates nothing, so each pair is
  handed to \<^verbatim>\<open>bm.edges.new\<close>, which raises \<^verbatim>\<open>ValueError\<close> when the two vertices
  already share an edge.  Of \<^verbatim>\<open>connect_loop\<close> the model keeps what happens to the working
  copy between \<^verbatim>\<open>bm.from_mesh\<close> and \<^verbatim>\<open>bm.to_mesh\<close>; the choice of the object and the
  switch of mode around it are left out.  The result is the mesh written back, or the
  exception that leaves the function.
\<close>

definition edge_exists :: "bmesh \<Rightarrow> nat \<Rightarrow> nat \<Rightarrow> bool" where
  "edge_exists bm a b = ((a, b) \<in> set (edges bm) \<or> (b, a) \<in> set (edges bm))"

fun edges_new :: "bmesh \<Rightarrow> nat list \<Rightarrow> error + bmesh" where
  "edges_new bm [a, b] =
     (if a = b \<or> edge_exists bm a b then Inl ValueError
      else Inr (bm\<lparr>edges := edges bm @ [(a, b)]\<rparr>))"
| "edges_new bm chunk = Inl ValueError"

fun build_edges :: "bmesh \<Rightarrow> nat list list \<Rightarrow> error + bmesh" where
  "build_edges bm [] = Inr bm"
| "build_edges bm (chunk # cs) =
     (case edges_new bm chunk of Inl e \<Rightarrow> Inl e | Inr bm' \<Rightarrow> build_edges bm' cs)"

definition connect_loop :: "tie_break \<Rightarrow> set_order \<Rightarrow> bmesh \<Rightarrow> bool \<Rightarrow> error + bmesh" where
  "connect_loop tie ord bm boundary_priority =
     (let bm1 = (if boundary_priority then prune ord bm else bm)
      in case active bm1 of
           None \<Rightarrow> Inr bm1
         | Some a \<Rightarrow>
             (case loop_builder tie ord bm1 a of
                Inl e \<Rightarrow> Inl e
              | Inr st \<Rightarrow>
                  (case edge_chunks (loop st) of
                     Inl e \<Rightarrow> Inl e
                   | Inr cs \<Rightarrow> build_edges bm1 cs)))"

section \<open>Notions of the specification\<close>







text \<open>
  The collector as the specification words it: the seed plus every selected point
  reachable from the seed through a path of selected points of length at most \<open>maxDepth\<close>.
\<close>

definition selected_neighbours :: "bmesh \<Rightarrow> nat \<Rightarrow> nat list" where
  "selected_neighbours bm v = filter (vselect bm) (map (other_vert v) (link_edges bm v))"

fun spec_collect :: "bmesh \<Rightarrow> nat \<Rightarrow> nat \<Rightarrow> nat set" where
  "spec_collect bm seed 0 = {seed}"
| "spec_collect bm seed (Suc d) =
     (let S = spec_collect bm seed d in S \<union> (\<Union>v \<in> S. set (selected_neighbours bm v)))"

section \<open>Concrete meshes\<close>

definition mesh_of :: "(coord \<times> bool) list \<Rightarrow> (nat \<times> nat) list \<Rightarrow> nat list \<Rightarrow> bmesh" where
  "mesh_of vs es hist =
     \<lparr>verts = map (\<lambda>(c, s). \<lparr>co = c, select = s\<rparr>) vs, edges = es, select_history = hist\<rparr>"

text \<open>Two ways for the index to settle a tie: the first or the last inserted of the tied points.\<close>

definition tie_first :: tie_break where
  "tie_first q tied = hd tied"

definition tie_last :: tie_break where
  "tie_last q tied = last tied"

text \<open>Two selected points without an edge; the active one has index 1.\<close>

definition two_points :: bmesh where
  "two_points = mesh_of [((0, 0, 0), True), ((1, 0, 0), True)] [] [1]"

text \<open>Two selected points joined by an edge; the active one has index 1.\<close>

definition joined_pair :: bmesh where
  "joined_pair = mesh_of [((0, 0, 0), True), ((1, 0, 0), True)] [(0, 1)] [1]"

text \<open>Two selected points joined by an edge, and no active element.\<close>

definition joined_pair_no_active :: bmesh where
  "joined_pair_no_active = mesh_of [((0, 0, 0), True), ((1, 0, 0), True)] [(0, 1)] []"

text \<open>A selected point 0 and an unselected point 1, which the select history names.\<close>

definition unselected_active :: bmesh where
  "unselected_active = mesh_of [((0, 0, 0), True), ((1, 0, 0), False)] [] [1]"

text \<open>
  The unit square of the scenario, once with the vertices stored in the order in which the
  scenario lists them, once with the corner \<open>(1,1,0)\<close> stored first.  The active point is
  \<open>(0,0,0)\<close> in both.
\<close>

definition square :: bmesh where
  "square = mesh_of [((0, 0, 0), True), ((1, 0, 0), True), ((1, 1, 0), True), ((0, 1, 0), True)]
              [] [0]"

definition square_permuted :: bmesh where
  "square_permuted =
     mesh_of [((1, 1, 0), True), ((0, 0, 0), True), ((1, 0, 0), True), ((0, 1, 0), True)]
       [] [1]"

text \<open>
  A ring of five selected points \<open>0 \<dots> 4\<close> with a tail point on each of the two points
  opposite to point 0 (point 5 on point 3, point 6 on point 2).
\<close>

definition ring5_tails :: bmesh where
  "ring5_tails = mesh_of
     [((0, 0, 0), True), ((1, 0, 0), True), ((2, 1, 0), True), ((1, 2, 0), True),
      ((0, 1, 0), True), ((1, 3, 0), True), ((3, 1, 0), True)]
     [(0, 1), (1, 2), (2, 3), (3, 4), (4, 0), (3, 5), (2, 6)] []"

text \<open>The same shape with a ring of twelve points: tails on points 10 and 2.\<close>

definition ring12_tails :: bmesh where
  "ring12_tails = mesh_of
     [((0, 0, 0), True), ((1, 0, 0), True), ((2, 0, 0), True), ((3, 0, 0), True),
      ((4, 0, 0), True), ((5, 0, 0), True), ((6, 0, 0), True), ((6, 1, 0), True),
      ((5, 1, 0), True), ((4, 1, 0), True), ((3, 1, 0), True), ((2, 1, 0), True),
      ((3, 2, 0), True), ((2, -1, 0), True)]
     [(0, 1), (1, 2), (2, 3), (3, 4), (4, 5), (5, 6), (6, 7), (7, 8), (8, 9), (9, 10),
      (10, 11), (11, 0), (10, 12), (2, 13)] []"



section \<open>Auxiliary facts\<close>

lemma set_iter_Nil [simp]: "set_iter ord [] = []"
  by (auto simp: set_iter_def Let_def)


lemma set_iter_single [simp]: "set_iter ord [a] = [a]"
proof -
  have "distinct p \<Longrightarrow> set p = {a} \<Longrightarrow> p = [a]" for p :: "nat list"
    by (cases p) (auto simp: subset_singleton_iff)
  then show ?thesis by (auto simp: set_iter_def Let_def)
qed

lemma set_iter_pair: "a \<noteq> b \<Longrightarrow> set_iter ord [a, b] = [a, b] \<or> set_iter ord [a, b] = [b, a]"
proof -
  assume ab: "a \<noteq> b"
  have "distinct p \<Longrightarrow> set p = {a, b} \<Longrightarrow> p = [a, b] \<or> p = [b, a]" for p :: "nat list"
  proof -
    assume d: "distinct p" and s: "set p = {a, b}"
    then have "length p = 2" using ab distinct_card [of p] by simp
    then obtain x y where p: "p = [x, y]"
      by (metis (no_types, opaque_lifting) Suc_length_conv length_0_conv numeral_2_eq_2)
    with s d ab show ?thesis by (auto simp: doubleton_eq_iff)
  qed
  then show ?thesis using ab by (auto simp: set_iter_def Let_def)
qed

lemma linked_verts_isolated:
  "link_edges bm v = [] \<Longrightarrow> linked_verts ord bm v d = {v}"
  by (cases d) (simp_all add: linked_verts_def)


lemma kd_find_Some:
  assumes "kd_find tie kd q f = Some r"
  shows "r \<in> snd ` set kd \<and> f r"
proof -
  define cands where "cands = filter (\<lambda>(c, k). f k) kd"
  define dmin where "dmin = min_list (map (\<lambda>(c, k). dist_sq q c) cands)"
  define tied where "tied = map snd (filter (\<lambda>(c, k). dist_sq q c = dmin) cands)"
  from assms have ne: "cands \<noteq> []"
    by (auto simp: kd_find_def cands_def Let_def split: if_splits)
  then have "dmin \<in> set (map (\<lambda>(c, k). dist_sq q c) cands)"
    unfolding dmin_def by (simp add: min_list_Min del: set_map)
  then have tne: "tied \<noteq> []"
    by (auto simp: tied_def filter_empty_conv)
  from assms ne have "r = (if tie q tied \<in> set tied then tie q tied else hd tied)"
    by (auto simp: kd_find_def Let_def cands_def dmin_def tied_def split: if_splits)
  with tne have "r \<in> set tied" by (auto split: if_splits)
  then have "r \<in> snd ` set cands" by (auto simp: tied_def)
  then show ?thesis by (auto simp: cands_def)
qed

lemma loop_body_cases:
  assumes "\<forall>k \<in> snd ` set kd. k < length (verts bm)"
  shows "\<exists>st'. loop_body tie ord bm kd cur st = Inr st' \<and> iter st' = iter st + 1
          \<and> (loop st' = loop st \<and> current_vertex st' = None
              \<or> (\<exists>index. loop st' = loop st @ [index] \<and> index \<notin> set (loop st)
                   \<and> index \<in> set (selected_vertices st) \<and> current_vertex st' = Some index))"
proof -
  define st1 where "st1 = st\<lparr>selected_vertices :=
      filter (\<lambda>v. v \<notin> linked_verts ord bm cur linked_verts_recursive_deep) (selected_vertices st)\<rparr>"
  show ?thesis
  proof (cases "kd_find tie kd (co (verts bm ! cur)) (flt st1)")
    case None
    then show ?thesis by (simp add: loop_body_def Let_def st1_def [symmetric]) (simp add: st1_def)
  next
    case (Some index)
    from kd_find_Some [OF Some] assms have a: "index < length (verts bm)" and b: "flt st1 index"
      by auto
    from b have c: "index \<in> set (selected_vertices st1)" "index \<notin> set (loop st)"
      by (auto simp: flt_def st1_def)
    then have d: "index \<in> set (selected_vertices st)" by (auto simp: st1_def)
    show ?thesis
      using Some a c d by (simp add: loop_body_def Let_def st1_def [symmetric]) (simp add: st1_def)
  qed
qed

lemma while_loop_total:
  "\<forall>k \<in> snd ` set kd. k < length (verts bm) \<Longrightarrow> iter st \<le> l \<Longrightarrow>
     \<exists>st'. while_loop tie ord bm kd l st = Inr st' \<and> iter st' \<le> l + 1"
proof (induction tie ord bm kd l st rule: while_loop.induct)
  case (1 tie ord bm kd l st)
  note kd = "1.prems"(1)
  show ?case
  proof (cases "current_vertex st")
    case None
    then show ?thesis using "1.prems" by (simp add: while_loop.simps [of tie ord bm kd l st])
  next
    case (Some cur)
    from loop_body_cases [OF kd, of tie ord cur st]
    obtain st' :: lb_state where b: "loop_body tie ord bm kd cur st = Inr st'"
      and i: "iter st' = iter st + 1"
      by auto
    show ?thesis
    proof (cases "l < iter st'")
      case True
      then show ?thesis
        using Some b i "1.prems" by (simp add: while_loop.simps [of tie ord bm kd l st])
    next
      case False
      then have "iter st' \<le> l" by simp
      from "1.IH" [OF Some b False kd this] obtain st'' :: lb_state where
        "while_loop tie ord bm kd l st' = Inr st''" "iter st'' \<le> l + 1" by blast
      then show ?thesis
        using Some b False by (simp add: while_loop.simps [of tie ord bm kd l st])
    qed
  qed
qed

lemma loop_body_Inr:
  assumes "loop_body tie ord bm kd cur st = Inr s1"
  shows "iter s1 = iter st + 1
       \<and> set (selected_vertices s1) \<subseteq> set (selected_vertices st)
       \<and> (loop s1 = loop st \<and> current_vertex s1 = None
           \<or> (\<exists>index. loop s1 = loop st @ [index] \<and> current_vertex s1 = Some index
                 \<and> index \<notin> set (loop st)
                 \<and> index \<in> set (selected_vertices st)
                 \<and> index \<notin> linked_verts ord bm cur linked_verts_recursive_deep
                 \<and> selected_vertices s1 = remove1 index
                      (filter (\<lambda>v. v \<notin> linked_verts ord bm cur linked_verts_recursive_deep)
                         (selected_vertices st))))"
proof -
  define st1 where "st1 = st\<lparr>selected_vertices :=
      filter (\<lambda>v. v \<notin> linked_verts ord bm cur linked_verts_recursive_deep) (selected_vertices st)\<rparr>"
  have sub: "set (selected_vertices st1) \<subseteq> set (selected_vertices st)"
    by (auto simp: st1_def)
  have rm: "set (remove1 k (selected_vertices st1)) \<subseteq> set (selected_vertices st)" for k
    using sub set_remove1_subset [of k "selected_vertices st1"] by blast
  show ?thesis
  proof (cases "kd_find tie kd (co (verts bm ! cur)) (flt st1)")
    case None
    with assms have "s1 = st1\<lparr>current_vertex := None, iter := iter st1 + 1\<rparr>"
      by (simp add: loop_body_def Let_def st1_def [symmetric])
    then show ?thesis using sub by (simp add: st1_def)
  next
    case (Some index)
    from kd_find_Some [OF Some] have b: "flt st1 index" by simp
    then have c: "index \<in> set (selected_vertices st1)" "index \<notin> set (loop st)"
      by (auto simp: flt_def st1_def)
    then have d: "index \<in> set (selected_vertices st)"
      "index \<notin> linked_verts ord bm cur linked_verts_recursive_deep"
      by (auto simp: st1_def)
    show ?thesis
    proof (cases "index = 0")
      case True
      with assms Some have "s1 = st1\<lparr>current_vertex := None, iter := iter st1 + 1\<rparr>"
        by (simp add: loop_body_def Let_def st1_def [symmetric])
      then show ?thesis using sub by (simp add: st1_def)
    next
      case False
      with assms Some c have "s1 = st1\<lparr>loop := loop st1 @ [index],
                            selected_vertices := remove1 index (selected_vertices st1),
                            current_vertex := Some index,
                            iter := iter st1 + 1\<rparr>"
        by (simp add: loop_body_def Let_def st1_def [symmetric] split: if_splits)
      then show ?thesis using c d rm [of index] by (simp add: st1_def)
    qed
  qed
qed

lemma while_loop_inv:
  "while_loop tie ord bm kd l st = Inr st' \<Longrightarrow> distinct (loop st) \<Longrightarrow>
     distinct (loop st') \<and> (\<exists>ys. loop st' = loop st @ ys \<and> set ys \<subseteq> set (selected_vertices st))"
proof (induction tie ord bm kd l st rule: while_loop.induct)
  case (1 tie ord bm kd l st)
  show ?case
  proof (cases "current_vertex st")
    case None
    then show ?thesis using "1.prems" by (simp add: while_loop.simps [of tie ord bm kd l st])
  next
    case (Some cur)
    show ?thesis
    proof (cases "loop_body tie ord bm kd cur st")
      case (Inl e)
      then show ?thesis
        using Some "1.prems" by (simp add: while_loop.simps [of tie ord bm kd l st])
    next
      case (Inr s1)
      have step: "distinct (loop s1) \<and> (\<exists>ys. loop s1 = loop st @ ys \<and> set ys \<subseteq> set (selected_vertices st))
                  \<and> set (selected_vertices s1) \<subseteq> set (selected_vertices st)"
        using loop_body_Inr [OF Inr] "1.prems"(2) by auto
      show ?thesis
      proof (cases "l < iter s1")
        case True
        then show ?thesis
          using Some Inr step "1.prems" by (simp add: while_loop.simps [of tie ord bm kd l st])
      next
        case False
        then have w: "while_loop tie ord bm kd l s1 = Inr st'"
          using Some Inr "1.prems" by (simp add: while_loop.simps [of tie ord bm kd l st])
        from "1.IH" [OF Some Inr False w] step
        have "distinct (loop st')" and "\<exists>ys. loop st' = loop s1 @ ys \<and> set ys \<subseteq> set (selected_vertices s1)"
          by auto
        with step show ?thesis by auto
      qed
    qed
  qed
qed


subsection \<open>Pruning changes selection flags only\<close>

lemma deselect_fields [simp]:
  "edges (deselect S bm) = edges bm"
  "select_history (deselect S bm) = select_history bm"
  "length (verts (deselect S bm)) = length (verts bm)"
  by (simp_all add: deselect_def)

lemma deselect_co [simp]: "map co (verts (deselect S bm)) = map co (verts bm)"
  by (rule nth_equalityI) (simp_all add: deselect_def)

lemma vselect_deselect [simp]: "vselect (deselect S bm) v \<longleftrightarrow> vselect bm v \<and> v \<notin> S"
  by (auto simp: vselect_def deselect_def split: if_splits)

lemma link_edges_deselect [simp]: "link_edges (deselect S bm) v = link_edges bm v"
  by (simp add: link_edges_def)

lemma prune_step_fields [simp]:
  "edges (prune_step ord v bm) = edges bm"
  "select_history (prune_step ord v bm) = select_history bm"
  "length (verts (prune_step ord v bm)) = length (verts bm)"
  "map co (verts (prune_step ord v bm)) = map co (verts bm)"
  by (simp_all add: prune_step_def)

lemma vselect_prune_step: "vselect (prune_step ord v bm) u \<Longrightarrow> vselect bm u"
  by (simp add: prune_step_def split: if_splits)

lemma fold_prune_step_fields:
  "edges (fold (prune_step ord) ks bm) = edges bm
   \<and> select_history (fold (prune_step ord) ks bm) = select_history bm
   \<and> length (verts (fold (prune_step ord) ks bm)) = length (verts bm)
   \<and> map co (verts (fold (prune_step ord) ks bm)) = map co (verts bm)"
  by (induction ks arbitrary: bm) simp_all

lemma vselect_fold_prune_step:
  "vselect (fold (prune_step ord) ks bm) u \<Longrightarrow> vselect bm u"
  by (induction ks arbitrary: bm) (auto dest: vselect_prune_step)

lemma vselect_select_flush_mode [simp]: "vselect (select_flush_mode bm) v = vselect bm v"
  by (simp add: vselect_def select_flush_mode_def)

lemma vselect_prune_eq: "vselect (prune ord bm) v = vselect (prune_pass ord bm) v"
  by (simp add: prune_def)

lemma prune_fields:
  "edges (prune ord bm) = edges bm"
  "length (verts (prune ord bm)) = length (verts bm)"
  "map co (verts (prune ord bm)) = map co (verts bm)"
  "verts (prune ord bm) = verts (prune_pass ord bm)"
  by (simp_all add: prune_def prune_pass_def select_flush_mode_def fold_prune_step_fields)

lemma select_history_prune:
  "select_history (prune ord bm) = filter (vselect (prune ord bm)) (select_history bm)"
proof -
  have "vselect (prune ord bm) = vselect (prune_pass ord bm)"
    by (rule ext) (rule vselect_prune_eq)
  then show ?thesis
    by (simp add: prune_def select_flush_mode_def prune_pass_def fold_prune_step_fields)
qed

lemma vselect_prune: "vselect (prune ord bm) u \<Longrightarrow> vselect bm u"
  unfolding vselect_prune_eq prune_pass_def by (rule vselect_fold_prune_step)

text \<open>After the pruning pass and the flush, the active vertex, if there is one, is selected.\<close>

lemma active_prune_selected: "active (prune ord bm) = Some a \<Longrightarrow> vselect (prune ord bm) a"
proof -
  assume a: "active (prune ord bm) = Some a"
  let ?h = "filter (vselect (prune ord bm)) (select_history bm)"
  from a have "?h \<noteq> []" "a = last ?h"
    by (auto simp: active_def select_history_prune split: if_splits)
  then have "a \<in> set ?h" using last_in_set by blast
  then show ?thesis by simp
qed

lemma set_selected_verts: "set (selected_verts bm) = {v. vselect bm v}"
  by (auto simp: selected_verts_def vselect_def)

section \<open>Properties of the collector and of pruning\<close>

lemma set_other_verts:
  "set (map (other_vert v) (link_edges bm v)) = {u. edge_exists bm v u}"
  by (auto simp: link_edges_def other_vert_def edge_exists_def image_iff) force+

lemma set_set_iter [simp]: "set (set_iter ord xs) = set xs"
  by (simp add: set_iter_def Let_def)





lemma fold_subset:
  assumes "\<And>u acc. u \<in> set xs \<Longrightarrow> acc \<subseteq> K \<Longrightarrow> f u acc \<subseteq> K"
  shows "acc \<subseteq> K \<Longrightarrow> fold f xs acc \<subseteq> K"
  using assms by (induction xs arbitrary: acc) auto

















lemma spec_collect_mono: "spec_collect bm s d \<subseteq> spec_collect bm s (Suc d)"
  by (auto simp: Let_def)

lemma spec_collect_seed: "s \<in> spec_collect bm s d"
  by (induction d) (auto simp: Let_def)

lemma spec_collect_prepend:
  "u \<in> set (selected_neighbours bm v) \<Longrightarrow> spec_collect bm u d \<subseteq> spec_collect bm v (Suc d)"
proof (induction d)
  case 0
  then show ?case by (auto simp: Let_def)
next
  case (Suc d)
  from Suc have ih: "spec_collect bm u d \<subseteq> spec_collect bm v (Suc d)" by simp
  have "spec_collect bm u (Suc d)
          = spec_collect bm u d \<union> (\<Union>x \<in> spec_collect bm u d. set (selected_neighbours bm x))"
    by (simp add: Let_def)
  also have "\<dots> \<subseteq> spec_collect bm v (Suc d)
                  \<union> (\<Union>x \<in> spec_collect bm v (Suc d). set (selected_neighbours bm x))"
    using ih by blast
  also have "\<dots> = spec_collect bm v (Suc (Suc d))"
    by (simp add: Let_def)
  finally show ?case .
qed

lemma linked_verts_rec_extensive: "vs \<subseteq> linked_verts_rec ord bm d v vs"
proof (induction d arbitrary: v vs)
  case 0
  then show ?case by simp
next
  case (Suc d)
  have "acc \<subseteq> fold (\<lambda>vert acc. linked_verts_rec ord bm d vert acc) xs acc" for xs acc
  proof (induction xs arbitrary: acc)
    case Nil
    then show ?case by simp
  next
    case (Cons x xs)
    have "acc \<subseteq> linked_verts_rec ord bm d x acc" by (rule Suc.IH)
    also have "\<dots> \<subseteq> fold (\<lambda>vert acc. linked_verts_rec ord bm d vert acc) xs
                          (linked_verts_rec ord bm d x acc)"
      by (rule Cons.IH)
    finally show ?case by simp
  qed
  from this [of "vs \<union> set (filter (\<lambda>u. vselect bm u \<and> u \<notin> vs)
                            (remdups (map (other_vert v) (link_edges bm v))))"]
  show ?case by (simp add: Let_def del: set_filter set_remdups set_map)
qed

lemma linked_verts_rec_within:
  "linked_verts_rec ord bm d v vs \<subseteq> vs \<union> spec_collect bm v d"
proof (induction d arbitrary: v vs)
  case 0
  then show ?case by auto
next
  case (Suc d)
  define new where "new = filter (\<lambda>u. vselect bm u \<and> u \<notin> vs)
                            (remdups (map (other_vert v) (link_edges bm v)))"
  let ?T = "vs \<union> spec_collect bm v (Suc d)"
  have nn: "set new \<subseteq> set (selected_neighbours bm v)"
    by (auto simp: new_def selected_neighbours_def)
  have "fold (\<lambda>vert acc. linked_verts_rec ord bm d vert acc) (set_iter ord new) (vs \<union> set new) \<subseteq> ?T"
  proof (rule fold_subset)
    show "vs \<union> set new \<subseteq> ?T"
      using nn spec_collect_seed [of v bm d] by (auto simp: Let_def)
  next
    fix u acc assume u: "u \<in> set (set_iter ord new)" and acc: "acc \<subseteq> ?T"
    from u nn have "u \<in> set (selected_neighbours bm v)" by auto
    then have "spec_collect bm u d \<subseteq> spec_collect bm v (Suc d)" by (rule spec_collect_prepend)
    moreover have "linked_verts_rec ord bm d u acc \<subseteq> acc \<union> spec_collect bm u d" by (rule Suc.IH)
    ultimately show "linked_verts_rec ord bm d u acc \<subseteq> ?T" using acc by blast
  qed
  then show ?case by (simp add: Let_def new_def)
qed

text \<open>
  What the collector returns holds the seed and lies within the points the specification
  describes.
\<close>

lemma linked_verts_sound:
  "bm_vert \<in> linked_verts ord bm bm_vert deep
   \<and> linked_verts ord bm bm_vert deep \<subseteq> spec_collect bm bm_vert deep"
proof -
  have "{bm_vert} \<subseteq> linked_verts ord bm bm_vert deep"
    unfolding linked_verts_def by (rule linked_verts_rec_extensive)
  moreover have "spec_collect bm bm_vert 0 \<subseteq> spec_collect bm bm_vert deep"
    by (induction deep) (use spec_collect_mono in auto)
  then have "{bm_vert} \<union> spec_collect bm bm_vert deep = spec_collect bm bm_vert deep"
    by auto
  then have "linked_verts ord bm bm_vert deep \<subseteq> spec_collect bm bm_vert deep"
    using linked_verts_rec_within [of ord bm deep bm_vert "{bm_vert}"]
    by (simp add: linked_verts_def)
  ultimately show ?thesis by simp
qed

subsection \<open>A search that the depth ceiling never cuts\<close>

lemma fold_extensive:
  assumes "\<And>u acc. acc \<subseteq> f u acc"
  shows "acc \<subseteq> fold f xs acc"
proof (induction xs arbitrary: acc)
  case Nil
  then show ?case by simp
next
  case (Cons x xs)
  have "acc \<subseteq> f x acc" by (rule assms)
  also have "\<dots> \<subseteq> fold f xs (f x acc)" by (rule Cons.IH)
  finally show ?case by simp
qed

lemma linked_verts_neighbour:
  assumes "edge_exists bm x y" "vselect bm y"
  shows "y \<in> linked_verts ord bm x (Suc d)"
proof -
  define new where "new = filter (\<lambda>u. vselect bm u \<and> u \<notin> {x})
                            (remdups (map (other_vert x) (link_edges bm x)))"
  have "y \<in> {x} \<union> set new"
    using assms set_other_verts [of x bm] by (auto simp: new_def)
  moreover have "{x} \<union> set new
      \<subseteq> fold (\<lambda>vert acc. linked_verts_rec ord bm d vert acc) (set_iter ord new) ({x} \<union> set new)"
    by (rule fold_extensive) (rule linked_verts_rec_extensive)
  ultimately show ?thesis
    by (auto simp: linked_verts_def Let_def new_def)
qed



















lemma fold_linked_verts_rec_0 [simp]: "fold (linked_verts_rec ord bm 0) xs vs = vs"
  by (induction xs) simp_all

lemmas lv_unfold = mesh_of_def link_edges_def Let_def vselect_def other_vert_def

lemma ring_order_1_4:
  "set_iter ord [1, 4] = [1, 4] \<Longrightarrow> linked_verts ord ring5_tails 0 3 = {0, 1, 2, 3, 4, 6}"
  by (auto simp add: linked_verts_def numeral_3_eq_3 ring5_tails_def lv_unfold)

lemma ring_order_4_1:
  "set_iter ord [1, 4] = [4, 1] \<Longrightarrow> linked_verts ord ring5_tails 0 3 = {0, 1, 2, 3, 4, 5}"
  by (auto simp add: linked_verts_def numeral_3_eq_3 ring5_tails_def lv_unfold)

lemma ring_spec: "spec_collect ring5_tails 0 3 = {0, 1, 2, 3, 4, 5, 6}"
  by (auto simp add: numeral_3_eq_3 ring5_tails_def lv_unfold selected_neighbours_def)

text \<open>
  C6.  In \<open>ring5_tails\<close> the points 5 and 6 are both selected and three steps from the
  seed 0 along selected points, yet with depth 3 the collector misses one of them, whatever
  the order in which the set of new neighbours is iterated: the branch taken first marks the
  far side of the ring as collected at depth 0, and the second branch then does not expand it.
\<close>

theorem collector_misses_near_point:
  "5 \<in> spec_collect ring5_tails 0 3 \<and> 6 \<in> spec_collect ring5_tails 0 3
   \<and> \<not> {5, 6} \<subseteq> linked_verts ord ring5_tails 0 3"
proof -
  have "set_iter ord [1, 4] = [1, 4] \<or> set_iter ord [1, 4] = [4, 1]"
    by (rule set_iter_pair) simp
  then have "linked_verts ord ring5_tails 0 3 = {0, 1, 2, 3, 4, 6}
           \<or> linked_verts ord ring5_tails 0 3 = {0, 1, 2, 3, 4, 5}"
    using ring_order_1_4 [of ord] ring_order_4_1 [of ord] by blast
  then show ?thesis by (auto simp: ring_spec)
qed


text \<open>
  The same at the depth ceiling the program uses: in a ring of twelve points with a tail on
  point 10 and a tail on point 2, both tails are three steps from the seed, and each of the
  two iteration orders of the seed's neighbours loses one of them.
\<close>

lemma ring12_depth10:
  "{12, 13} \<subseteq> spec_collect ring12_tails 0 3
   \<and> 12 \<notin> linked_verts (\<lambda>xs. xs) ring12_tails 0 linked_verts_recursive_deep
   \<and> 13 \<notin> linked_verts rev ring12_tails 0 linked_verts_recursive_deep"
  by code_simp

section \<open>Properties of the chunking stage\<close>

lemma chunks_from_step1:
  "filter (\<lambda>c. length c = 2) (chunks_from lst 2 (Suc 0) i)
     = map (\<lambda>k. [lst ! k, lst ! Suc k]) [i ..< length lst - 1]"
proof (induction "length lst - i" arbitrary: i)
  case 0
  then show ?case by (simp add: chunks_from.simps [of lst 2 "Suc 0" i])
next
  case (Suc m)
  then have lt: "i < length lst" by simp
  have ih: "filter (\<lambda>c. length c = 2) (chunks_from lst 2 (Suc 0) (Suc i))
               = map (\<lambda>k. [lst ! k, lst ! Suc k]) [Suc i ..< length lst - 1]"
    using Suc(1) [of "Suc i"] Suc(2) by simp
  have unf: "chunks_from lst 2 (Suc 0) i = take 2 (drop i lst) # chunks_from lst 2 (Suc 0) (Suc i)"
    using lt by (subst chunks_from.simps) simp
  show ?case
  proof (cases "Suc i < length lst")
    case True
    then have tk: "take 2 (drop i lst) = [lst ! i, lst ! Suc i]"
      by (simp add: numeral_2_eq_2 take_Suc_conv_app_nth Cons_nth_drop_Suc [symmetric])
    have up: "[i ..< length lst - 1] = i # [Suc i ..< length lst - 1]"
      using True by (simp add: upt_conv_Cons)
    show ?thesis
      unfolding unf up using ih tk by simp
  next
    case False
    with lt have e: "length lst = Suc i" by simp
    then have "length (take 2 (drop i lst)) = 1" by simp
    then show ?thesis
      unfolding unf using ih e by simp
  qed
qed

lemma edge_chunks_eq:
  "edge_chunks lp = Inr (map (\<lambda>i. [lp ! i, lp ! Suc i]) [0 ..< length lp - 1])"
  by (simp add: edge_chunks_def chunks_def chunks_from_step1)

text \<open>
  C9.  On a loop of length \<open>n\<close> the chunking stage (window 2, offset 1, then the size-2
  filter) raises nothing and emits exactly \<open>max (n - 1) 0\<close> pairs, the \<open>i\<close>-th being
  \<open>(loop[i], loop[i+1])\<close>: each adjacent pair once, the underfull last window dropped.
\<close>

theorem edge_chunks_adjacent_pairs:
  "edge_chunks lp = Inr (map (\<lambda>i. [lp ! i, lp ! Suc i]) [0 ..< length lp - 1])
   \<and> (\<exists>cs. edge_chunks lp = Inr cs \<and> int (length cs) = max (int (length lp) - 1) 0)"
proof -
  have "edge_chunks lp = Inr (map (\<lambda>i. [lp ! i, lp ! Suc i]) [0 ..< length lp - 1])"
    by (simp add: edge_chunks_def chunks_def chunks_from_step1)
  then show ?thesis by auto
qed


section \<open>Properties of the loop builder\<close>

lemma kd_build_indices:
  "\<forall>k \<in> snd ` set (kd_build bm (selected_verts bm)). k < length (verts bm)"
  by (auto simp: kd_build_def selected_verts_def)

text \<open>
  C4.  The \<^verbatim>\<open>while\<close> loop of the loop builder terminates (\<open>while_loop\<close> is a total
  function, and the run returns a state), and it executes at most
  \<open>initialCandidateCount + 1\<close> iterations, where \<open>initialCandidateCount\<close> is the length of
  the candidate list after the removal of the active vertex.
\<close>

theorem loop_builder_iterations_bounded:
  assumes "a \<in> set (selected_verts bm)"
  shows "\<exists>st. loop_builder tie ord bm a = Inr st
           \<and> iter st \<le> length (remove1 a (selected_verts bm)) + 1"
proof -
  let ?sv1 = "remove1 a (selected_verts bm)"
  let ?s0 = "\<lparr>loop = [a], selected_vertices = ?sv1, current_vertex = Some a, iter = 0\<rparr>"
  have "iter ?s0 \<le> length ?sv1" by simp
  from while_loop_total [OF kd_build_indices this, where tie = tie and ord = ord]
  show ?thesis using assms by (simp add: loop_builder_def Let_def)
qed

theorem loop_builder_iterations_bounded_witness:
  "0 \<in> set (selected_verts square)
   \<and> (\<exists>st. loop_builder tie_first (\<lambda>xs. xs) square 0 = Inr st
         \<and> iter st \<le> length (remove1 0 (selected_verts square)) + 1)"
proof -
  have h: "0 \<in> set (selected_verts square)" by code_simp
  from loop_builder_iterations_bounded [OF h, of tie_first "\<lambda>xs. xs"] h
  show ?thesis by blast
qed

text \<open>
  C3.  The loop of a run has no duplicates, starts with the seed, and its other points come
  from the selection the builder was started on (the post-pruning selection).  Whenever
  the loop body appends a point, that point is at that moment a member of the candidate
  list (as already reduced by the points linked to the tip) and not yet in the loop, and it
  is then removed from the candidate list.
\<close>

theorem loop_distinct_from_candidates:
  assumes "loop_builder tie ord bm a = Inr st"
  shows "distinct (loop st)
       \<and> (\<exists>ys. loop st = a # ys \<and> set ys \<subseteq> set (selected_verts bm) - {a})
       \<and> (\<forall>kd cur s s'. loop_body tie ord bm kd cur s = Inr s' \<longrightarrow> loop s' \<noteq> loop s \<longrightarrow>
             (\<exists>index. loop s' = loop s @ [index]
                \<and> index \<in> set (filter (\<lambda>v. v \<notin> linked_verts ord bm cur linked_verts_recursive_deep)
                                  (selected_vertices s))
                \<and> index \<notin> set (loop s)
                \<and> selected_vertices s' = remove1 index
                      (filter (\<lambda>v. v \<notin> linked_verts ord bm cur linked_verts_recursive_deep)
                         (selected_vertices s))))"
proof -
  let ?sv1 = "remove1 a (selected_verts bm)"
  let ?s0 = "\<lparr>loop = [a], selected_vertices = ?sv1, current_vertex = Some a, iter = 0\<rparr>"
  from assms have w: "while_loop tie ord bm (kd_build bm (selected_verts bm)) (length ?sv1) ?s0 = Inr st"
    by (simp add: loop_builder_def Let_def split: if_splits)
  have "distinct (loop ?s0)" by simp
  from while_loop_inv [OF w this] obtain ys where
    d: "distinct (loop st)" and l: "loop st = a # ys" and sub: "set ys \<subseteq> set ?sv1"
    by auto
  from d l have "a \<notin> set ys" by simp
  moreover have "set ?sv1 \<subseteq> set (selected_verts bm)" by (rule set_remove1_subset)
  ultimately have c: "set ys \<subseteq> set (selected_verts bm) - {a}" using sub by blast
  have step: "\<exists>index. loop s' = loop s @ [index]
                \<and> index \<in> set (filter (\<lambda>v. v \<notin> linked_verts ord bm cur linked_verts_recursive_deep)
                                  (selected_vertices s))
                \<and> index \<notin> set (loop s)
                \<and> selected_vertices s' = remove1 index
                      (filter (\<lambda>v. v \<notin> linked_verts ord bm cur linked_verts_recursive_deep)
                         (selected_vertices s))"
    if "loop_body tie ord bm kd cur s = Inr s'" "loop s' \<noteq> loop s" for kd cur and s s' :: lb_state
    using loop_body_Inr [OF that(1)] that(2) by auto
  from d l c step show ?thesis by blast
qed

theorem loop_distinct_from_candidates_witness:
  "loop_builder tie_first (\<lambda>xs. xs) square 0
     = Inr \<lparr>loop = [0, 1, 2, 3], selected_vertices = [], current_vertex = None, iter = 4\<rparr>
   \<and> distinct [0, 1, 2, 3 :: nat]
   \<and> set [1, 2, 3] \<subseteq> set (selected_verts square) - {0}
   \<and> loop_body tie_first (\<lambda>xs. xs) square (kd_build square [0, 1, 2, 3]) 0
         \<lparr>loop = [0], selected_vertices = [1, 2, 3], current_vertex = Some 0, iter = 0\<rparr>
       = Inr \<lparr>loop = [0, 1], selected_vertices = [2, 3], current_vertex = Some 1, iter = 1\<rparr>
   \<and> 1 \<in> set (filter (\<lambda>v. v \<notin> linked_verts (\<lambda>xs. xs) square 0 linked_verts_recursive_deep) [1, 2, 3])"
proof -
  let ?st = "\<lparr>loop = [0, 1, 2, 3], selected_vertices = [], current_vertex = None, iter = 4\<rparr>"
  let ?s = "\<lparr>loop = [0], selected_vertices = [1, 2, 3], current_vertex = Some 0, iter = 0\<rparr>"
  let ?s' = "\<lparr>loop = [0, 1], selected_vertices = [2, 3], current_vertex = Some 1, iter = 1\<rparr>"
  have run: "loop_builder tie_first (\<lambda>xs. xs) square 0 = Inr ?st" by code_simp
  have body: "loop_body tie_first (\<lambda>xs. xs) square (kd_build square [0, 1, 2, 3]) 0 ?s = Inr ?s'"
    by code_simp
  have ne: "loop ?s' \<noteq> loop ?s" by simp
  note t = loop_distinct_from_candidates [OF run]
  from t have 1: "distinct (loop ?st)" by blast
  from t have 2: "set [1, 2, 3] \<subseteq> set (selected_verts square) - {0}" by simp
  from t body ne have "\<exists>index. loop ?s' = loop ?s @ [index]
       \<and> index \<in> set (filter (\<lambda>v. v \<notin> linked_verts (\<lambda>xs. xs) square 0 linked_verts_recursive_deep)
                         (selected_vertices ?s))"
    by blast
  then have 3: "1 \<in> set (filter (\<lambda>v. v \<notin> linked_verts (\<lambda>xs. xs) square 0 linked_verts_recursive_deep) [1, 2, 3])"
    by simp
  from run 1 2 body 3 show ?thesis by simp
qed


section \<open>Runs on concrete meshes\<close>

lemmas prune_unfold = mesh_of_def selected_verts_def link_edges_def Let_def upt_rec
  prune_def prune_pass_def select_flush_mode_def active_def
  prune_step_def deselect_def vselect_def linked_verts_def
  linked_verts_recursive_deep_def other_vert_def

lemmas run_unfold = connect_loop_def active_def mesh_of_def loop_builder_def selected_verts_def
  kd_build_def while_loop.simps loop_body_def linked_verts_isolated
  link_edges_def kd_find_def dist_sq_def flt_def Let_def edge_chunks_def chunks_def
  chunks_from.simps upt_rec edge_exists_def


text \<open>
  C1.  On \<open>two_points\<close> the query from the active vertex (index 1) returns the eligible
  point of index 0; the loop body discards it, leaves the loop and the candidate list as they
  are and ends the loop, and the whole run creates no edge.  This holds for every tie-break
  and every iteration order.
\<close>

theorem index_zero_result_discarded:
  "kd_find tie (kd_build two_points [0, 1]) (co (verts two_points ! 1))
       (flt \<lparr>loop = [1], selected_vertices = [0], current_vertex = Some 1, iter = 0\<rparr>) = Some 0
   \<and> loop_body tie ord two_points (kd_build two_points [0, 1]) 1
         \<lparr>loop = [1], selected_vertices = [0], current_vertex = Some 1, iter = 0\<rparr>
       = Inr \<lparr>loop = [1], selected_vertices = [0], current_vertex = None, iter = 1\<rparr>
   \<and> connect_loop tie ord two_points False = Inr two_points"
  by (simp add: connect_loop_def active_def two_points_def mesh_of_def loop_builder_def selected_verts_def
     kd_build_def while_loop.simps loop_body_def linked_verts_isolated
     link_edges_def kd_find_def dist_sq_def flt_def Let_def edge_chunks_def chunks_def chunks_from.simps upt_rec)


subsection \<open>Runs that raise nothing\<close>

lemma adj_pairs_nth: "adj_pairs lp = map (\<lambda>i. [lp ! i, lp ! Suc i]) [0 ..< length lp - 1]"
proof (induction lp rule: adj_pairs.induct)
  case (1 x y rest)
  have "[0 ..< length (x # y # rest) - 1] = 0 # map Suc [0 ..< length (y # rest) - 1]"
    by (simp add: upt_conv_Cons map_Suc_upt del: upt_Suc)
  then show ?case using 1 by (simp add: comp_def del: upt_Suc)
qed simp_all

lemma edge_chunks_adj_pairs: "edge_chunks lp = Inr (adj_pairs lp)"
  by (simp add: edge_chunks_eq adj_pairs_nth)

lemma build_edges_adj_pairs:
  "distinct lp \<Longrightarrow> successively (\<lambda>x y. \<not> edge_exists bm x y) lp \<Longrightarrow>
     \<exists>bm'. build_edges bm (adj_pairs lp) = Inr bm'"
proof (induction lp arbitrary: bm rule: adj_pairs.induct)
  case (1 x y rest)
  let ?bm2 = "bm\<lparr>edges := edges bm @ [(x, y)]\<rparr>"
  from "1.prems" have xy: "x \<noteq> y" "\<not> edge_exists bm x y" by auto
  have "successively (\<lambda>u v. \<not> edge_exists bm u v) (y # rest)"
    using "1.prems"(2) by simp
  then have "successively (\<lambda>u v. \<not> edge_exists ?bm2 u v) (y # rest)"
  proof (rule successively_mono)
    fix u v assume "u \<in> set (y # rest)" "v \<in> set (y # rest)" "\<not> edge_exists bm u v"
    moreover from "1.prems"(1) have "x \<notin> set (y # rest)" by simp
    ultimately show "\<not> edge_exists ?bm2 u v" by (auto simp: edge_exists_def)
  qed
  moreover from "1.prems"(1) have "distinct (y # rest)" by simp
  ultimately obtain bm' where "build_edges ?bm2 (adj_pairs (y # rest)) = Inr bm'"
    using "1.IH" by blast
  then show ?case using xy by simp
qed simp_all

lemma while_loop_chain:
  "while_loop tie ord bm kd l st = Inr st' \<Longrightarrow>
   distinct (loop st) \<Longrightarrow>
   successively (\<lambda>x y. \<not> edge_exists bm x y) (loop st) \<Longrightarrow>
   set (selected_vertices st) \<subseteq> {v. vselect bm v} \<Longrightarrow>
   (\<forall>cur. current_vertex st = Some cur \<longrightarrow> loop st \<noteq> [] \<and> last (loop st) = cur) \<Longrightarrow>
   distinct (loop st') \<and> successively (\<lambda>x y. \<not> edge_exists bm x y) (loop st')"
proof (induction tie ord bm kd l st rule: while_loop.induct)
  case (1 tie ord bm kd l st)
  show ?case
  proof (cases "current_vertex st")
    case None
    then show ?thesis using "1.prems" by (simp add: while_loop.simps [of tie ord bm kd l st])
  next
    case (Some cur)
    show ?thesis
    proof (cases "loop_body tie ord bm kd cur st")
      case (Inl e)
      then show ?thesis
        using Some "1.prems" by (simp add: while_loop.simps [of tie ord bm kd l st])
    next
      case (Inr s1)
      note b = loop_body_Inr [OF Inr]
      from "1.prems"(5) Some have tip: "loop st \<noteq> []" "last (loop st) = cur" by auto
      have sv: "set (selected_vertices s1) \<subseteq> {v. vselect bm v}"
        using b "1.prems"(4) by blast
      have inv: "distinct (loop s1) \<and> successively (\<lambda>x y. \<not> edge_exists bm x y) (loop s1)
                 \<and> (\<forall>c. current_vertex s1 = Some c \<longrightarrow> loop s1 \<noteq> [] \<and> last (loop s1) = c)"
      proof (cases "loop s1 = loop st")
        case True
        with b have "current_vertex s1 = None" by auto
        with True "1.prems" show ?thesis by simp
      next
        case False
        with b obtain index where i: "loop s1 = loop st @ [index]" "current_vertex s1 = Some index"
          "index \<notin> set (loop st)" "index \<in> set (selected_vertices st)"
          "index \<notin> linked_verts ord bm cur linked_verts_recursive_deep"
          by auto
        from i(4) "1.prems"(4) have "vselect bm index" by auto
        with i(5) have "\<not> edge_exists bm cur index"
          using linked_verts_neighbour [of bm cur index ord 9]
          by (auto simp: linked_verts_recursive_deep_def eval_nat_numeral)
        then show ?thesis
          using i "1.prems"(2,3) tip by (simp add: successively_append_iff)
      qed
      show ?thesis
      proof (cases "l < iter s1")
        case True
        then show ?thesis
          using Some Inr inv "1.prems" by (simp add: while_loop.simps [of tie ord bm kd l st])
      next
        case False
        then have w: "while_loop tie ord bm kd l s1 = Inr st'"
          using Some Inr "1.prems" by (simp add: while_loop.simps [of tie ord bm kd l st])
        show ?thesis
          using "1.IH" [OF Some Inr False w] inv sv by blast
      qed
    qed
  qed
qed

text \<open>The loop-building and edge-creating part of a run whose active vertex is selected.\<close>

lemma run_from_selected_active:
  assumes "vselect bm1 a"
  shows "\<exists>bm'. (case loop_builder tie ord bm1 a of
                  Inl e \<Rightarrow> Inl e
                | Inr st \<Rightarrow> (case edge_chunks (loop st) of
                               Inl e \<Rightarrow> Inl e
                             | Inr cs \<Rightarrow> build_edges bm1 cs)) = Inr bm'"
proof -
  let ?sv1 = "remove1 a (selected_verts bm1)"
  let ?s0 = "\<lparr>loop = [a], selected_vertices = ?sv1, current_vertex = Some a, iter = 0\<rparr>"
  let ?kd = "kd_build bm1 (selected_verts bm1)"
  from assms have a: "a \<in> set (selected_verts bm1)" by (simp add: set_selected_verts)
  have "iter ?s0 \<le> length ?sv1" by simp
  from while_loop_total [OF kd_build_indices this, where tie = tie and ord = ord]
  obtain st :: lb_state where w: "while_loop tie ord bm1 ?kd (length ?sv1) ?s0 = Inr st"
    by auto
  have "set ?sv1 \<subseteq> {v. vselect bm1 v}"
    using set_remove1_subset [of a "selected_verts bm1"] by (auto simp: set_selected_verts)
  with while_loop_chain [OF w]
  have "distinct (loop st)" "successively (\<lambda>x y. \<not> edge_exists bm1 x y) (loop st)"
    by simp_all
  then obtain bm' where "build_edges bm1 (adj_pairs (loop st)) = Inr bm'"
    using build_edges_adj_pairs by blast
  moreover have "loop_builder tie ord bm1 a = Inr st"
    using a w by (simp add: loop_builder_def Let_def)
  ultimately show ?thesis by (simp add: edge_chunks_adj_pairs)
qed


text \<open>
  C2.  For a properly formed input, an active vertex that is selected, the run raises
  nothing, with and without boundary priority.  With boundary priority the flush after the
  pruning pass takes a deselected active vertex out of the select history, so the loop is
  then built from a vertex that is still selected, or not at all.
\<close>

theorem connect_loop_raises_nothing:
  assumes "active bm = Some a" and "vselect bm a"
  shows "\<exists>bm'. connect_loop tie ord bm boundary_priority = Inr bm'"
proof -
  let ?bm1 = "if boundary_priority then prune ord bm else bm"
  show ?thesis
  proof (cases "active ?bm1")
    case None
    then show ?thesis by (simp add: connect_loop_def Let_def)
  next
    case (Some a')
    have "vselect ?bm1 a'"
    proof (cases boundary_priority)
      case True
      with Some show ?thesis using active_prune_selected by simp
    next
      case False
      with Some assms show ?thesis by simp
    qed
    from run_from_selected_active [OF this, of tie ord] Some
    show ?thesis by (simp add: connect_loop_def Let_def)
  qed
qed


theorem connect_loop_raises_nothing_witness:
  "active joined_pair = Some 1 \<and> vselect joined_pair 1
   \<and> (\<exists>bm'. connect_loop tie_first (\<lambda>xs. xs) joined_pair True = Inr bm')
   \<and> (\<exists>bm'. connect_loop tie_first (\<lambda>xs. xs) joined_pair False = Inr bm')"
proof -
  have h1: "active joined_pair = Some 1" by code_simp
  have h2: "vselect joined_pair 1" by code_simp
  from connect_loop_raises_nothing [OF h1 h2, of tie_first "\<lambda>xs. xs" True]
       connect_loop_raises_nothing [OF h1 h2, of tie_first "\<lambda>xs. xs" False] h1 h2
  show ?thesis by blast
qed


text \<open>
  On \<open>joined_pair\<close> with boundary priority, pruning from vertex 0 deselects the active
  vertex 1, the flush empties the select history, and the run returns the pruned mesh.
\<close>

lemma joined_pair_pruned_run:
  "connect_loop tie ord joined_pair True
     = Inr (mesh_of [((0, 0, 0), True), ((1, 0, 0), False)] [(0, 1)] [])"
  by (simp add: connect_loop_def prune_unfold joined_pair_def numeral_eq_Suc)


text \<open>
  With fewer than two selected vertices after the optional pruning, and an active vertex
  that is selected or absent, the loop stays \<open>[seed]\<close> when there is a seed, no pair is
  emitted and no edge is created.
\<close>

lemma single_selected_vertex:
  assumes "selected_verts bm1 = [a]"
  shows "loop_builder tie ord bm1 a
           = Inr \<lparr>loop = [a], selected_vertices = [], current_vertex = None, iter = 1\<rparr>"
proof -
  have kd: "kd_find tie kd q
              (flt \<lparr>loop = [a], selected_vertices = [], current_vertex = Some a, iter = 0\<rparr>) = None"
    for kd q
    by (simp add: kd_find_def flt_def)
  show ?thesis
    using assms
    by (simp add: loop_builder_def Let_def while_loop.simps loop_body_def kd)
qed

lemma few_candidates_no_edges:
  assumes "length (selected_verts (if boundary_priority then prune ord bm else bm)) < 2"
    and "boundary_priority \<or> active bm = None \<or> (\<exists>a. active bm = Some a \<and> vselect bm a)"
  shows "connect_loop tie ord bm boundary_priority
           = Inr (if boundary_priority then prune ord bm else bm)"
proof -
  let ?bm1 = "if boundary_priority then prune ord bm else bm"
  show ?thesis
  proof (cases "active ?bm1")
    case None
    then show ?thesis by (simp add: connect_loop_def Let_def)
  next
    case (Some a)
    have "vselect ?bm1 a"
    proof (cases boundary_priority)
      case True
      with Some show ?thesis using active_prune_selected by simp
    next
      case False
      with Some assms(2) show ?thesis by auto
    qed
    then have "a \<in> set (selected_verts ?bm1)" by (simp add: set_selected_verts)
    with assms(1) have "selected_verts ?bm1 = [a]"
      by (cases "selected_verts ?bm1") (auto simp: less_Suc_eq numeral_2_eq_2)
    from single_selected_vertex [OF this, of tie ord] Some
    show ?thesis by (simp add: connect_loop_def Let_def edge_chunks_eq)
  qed
qed


text \<open>
  C7.  On \<open>unselected_active\<close> without boundary priority one vertex is selected (fewer than
  two candidates) and the active vertex is not selected: the removal of the active vertex
  from the list of selected vertices raises \<^verbatim>\<open>ValueError\<close>.
\<close>

theorem unselected_active_raises:
  "active unselected_active = Some 1
   \<and> length (selected_verts unselected_active) < 2
   \<and> connect_loop tie ord unselected_active False = Inl ValueError"
  by (simp add: connect_loop_def active_def loop_builder_def unselected_active_def mesh_of_def
      selected_verts_def upt_rec Let_def)


text \<open>
  C8 (as amended).  When the select history holds no selected vertex, which covers a
  missing active point and, with boundary priority, an active point that is not selected,
  the run with boundary priority raises nothing and creates no edge: it returns the pruned
  mesh, with the same edges and coordinates, a selection that can only have shrunk and an
  empty select history.  Without boundary priority and without an active point the mesh is
  returned as it is.
\<close>

theorem no_selected_active_no_edges:
  assumes "filter (vselect bm) (select_history bm) = []"
  shows "connect_loop tie ord bm True = Inr (prune ord bm)
       \<and> edges (prune ord bm) = edges bm
       \<and> map co (verts (prune ord bm)) = map co (verts bm)
       \<and> set (selected_verts (prune ord bm)) \<subseteq> set (selected_verts bm)
       \<and> select_history (prune ord bm) = []
       \<and> (select_history bm = [] \<longrightarrow> connect_loop tie ord bm False = Inr bm)"
proof -
  have "filter (vselect (prune ord bm)) (select_history bm) = []"
    using assms vselect_prune [of ord bm] by (auto simp: filter_empty_conv)
  then have h: "select_history (prune ord bm) = []" by (simp add: select_history_prune)
  then have "active (prune ord bm) = None" by (simp add: active_def)
  then have "connect_loop tie ord bm True = Inr (prune ord bm)"
    by (simp add: connect_loop_def)
  moreover have "select_history bm = [] \<longrightarrow> connect_loop tie ord bm False = Inr bm"
    by (simp add: connect_loop_def active_def)
  moreover have "set (selected_verts (prune ord bm)) \<subseteq> set (selected_verts bm)"
    using vselect_prune [of ord bm] by (auto simp: set_selected_verts)
  ultimately show ?thesis using h by (simp add: prune_fields(1,3))
qed


theorem no_selected_active_no_edges_witness:
  "filter (vselect joined_pair_no_active) (select_history joined_pair_no_active) = []
   \<and> select_history joined_pair_no_active = []
   \<and> connect_loop tie_first (\<lambda>xs. xs) joined_pair_no_active False = Inr joined_pair_no_active
   \<and> connect_loop tie_first (\<lambda>xs. xs) joined_pair_no_active True
       = Inr (prune (\<lambda>xs. xs) joined_pair_no_active)
   \<and> edges (prune (\<lambda>xs. xs) joined_pair_no_active) = [(0, 1)]
   \<and> active unselected_active = Some 1
   \<and> filter (vselect unselected_active) (select_history unselected_active) = []
   \<and> connect_loop tie_first (\<lambda>xs. xs) unselected_active True
       = Inr (prune (\<lambda>xs. xs) unselected_active)
   \<and> edges (prune (\<lambda>xs. xs) unselected_active) = []"
proof -
  have h1: "filter (vselect joined_pair_no_active) (select_history joined_pair_no_active) = []"
    and h2: "select_history joined_pair_no_active = []"
    and e1: "edges joined_pair_no_active = [(0, 1)]"
    by code_simp+
  have h3: "filter (vselect unselected_active) (select_history unselected_active) = []"
    and a3: "active unselected_active = Some 1"
    and e3: "edges unselected_active = []"
    by code_simp+
  from no_selected_active_no_edges [OF h1, of tie_first "\<lambda>xs. xs"]
       no_selected_active_no_edges [OF h3, of tie_first "\<lambda>xs. xs"] h1 h2 h3 a3 e1 e3
  show ?thesis by simp
qed


text \<open>
  C8 (as stated) fails: with boundary priority and no active element, the selection of
  \<open>joined_pair_no_active\<close> is changed by the run.
\<close>

theorem no_active_vertex_selection_changed:
  "active joined_pair_no_active = None
   \<and> connect_loop tie_first (\<lambda>xs. xs) joined_pair_no_active True \<noteq> Inr joined_pair_no_active"
proof -
  have "selected_verts (prune (\<lambda>xs. xs) joined_pair_no_active) = [0]" by code_simp
  moreover have "selected_verts joined_pair_no_active = [0, 1]" by code_simp
  ultimately have "prune (\<lambda>xs. xs) joined_pair_no_active \<noteq> joined_pair_no_active"
    by auto
  moreover have a: "active joined_pair_no_active = None" by code_simp
  moreover have "active (prune (\<lambda>xs. xs) joined_pair_no_active) = None" by code_simp
  ultimately show ?thesis
    by (simp add: connect_loop_def)
qed


text \<open>With the vertices stored in the listed order and ties settled for the first inserted
  point, the square gives the loop of the scenario.\<close>

lemma square_listed_order:
  "connect_loop tie_first ord square False = Inr (square\<lparr>edges := [(0, 1), (1, 2), (2, 3)]\<rparr>)"
  by (simp add: run_unfold square_def tie_first_def)


text \<open>
  C10.  With the corner \<open>(1,1,0)\<close> stored at index 0, the run on the four points of the
  scenario appends one of the two nearest corners and then stops, since the next query
  returns index 0: one edge is created instead of three, whatever the tie-break.
\<close>

theorem square_permuted_stops_early:
  "connect_loop tie ord square_permuted False
     = Inr (square_permuted\<lparr>edges := [(1, if tie (0, 0, 0) [2, 3] = 3 then 3 else 2)]\<rparr>)"
proof (cases "tie (0, 0, 0) [2, 3] = 3")
  case True
  then show ?thesis
    by (simp add: run_unfold square_permuted_def numeral_2_eq_2 numeral_3_eq_3)
next
  case False
  then show ?thesis
    by (auto simp add: run_unfold square_permuted_def numeral_2_eq_2 numeral_3_eq_3)
qed

end
